theory Spec2Isabelle
  imports Main "HOL-Library.Word" "HOL-Library.Signed_Division"
begin

section \<open>The ouroboros ring buffer (src/ouroboros.c)\<close>

text \<open>
  The module keeps one global ring of \<open>MAX_STRINGS\<close> rows of \<open>STR_SIZE\<close> bytes and three
  \<open>int\<close> indices. \<open>proc_write\<close> stores one C string per call (through \<open>add_to_buffer\<close>),
  \<open>proc_read\<close> hands the oldest one to the caller and drops it.

  The embedding passes the global state explicitly. A byte is an 8-bit word, a row is a
  list of bytes, the C \<open>int\<close> indices are \<open>int\<close> and \<open>%\<close> is the truncating remainder
  \<open>smod\<close>, as in C. \<open>size_t count\<close> is a 64-bit word. User memory is not modelled as a
  store: the source buffer of a write is the list of bytes that are readable at the
  caller's pointer, the destination of a read is the number of bytes writable there.
\<close>

subsection \<open>Constants and state\<close>

type_synonym byte = "8 word"

type_synonym size_t = "64 word"

definition MAX_STRINGS :: int where
  "MAX_STRINGS = 10"

definition STR_SIZE :: nat where
  "STR_SIZE = 64"

record ring =
  circular_buffer :: "byte list list"
  head :: int
  tail :: int
  line_count :: int

text \<open>The statics of the C file: a zeroed array and three zero indices.\<close>

definition init_ring :: ring where
  "init_ring =
     \<lparr>circular_buffer = replicate (nat MAX_STRINGS) (replicate STR_SIZE 0),
      head = 0, tail = 0, line_count = 0\<rparr>"

datatype errno = EFAULT

subsection \<open>The C library and the user-copy primitives\<close>

text \<open>\<open>strlen\<close>: the number of bytes before the first NUL.\<close>

definition strlen :: "byte list \<Rightarrow> nat" where
  "strlen s = length (takeWhile (\<lambda>c. c \<noteq> 0) s)"

text \<open>
  \<open>strncpy dst src n\<close> writes exactly \<open>n\<close> bytes at the start of \<open>dst\<close>: the bytes of
  \<open>src\<close> before its first NUL, at most \<open>n\<close> of them, then NUL padding. The bytes of
  \<open>dst\<close> from \<open>n\<close> on are kept.
\<close>

definition strncpy :: "byte list \<Rightarrow> byte list \<Rightarrow> nat \<Rightarrow> byte list" where
  "strncpy dst src n =
     (let k = min (strlen src) n
      in take k src @ replicate (n - k) 0 @ drop n dst)"

text \<open>
  \<open>copy_from_user\<close> returns the number of bytes it could not copy: none when \<open>n\<close>
  bytes are readable at the user pointer.
\<close>

definition copy_from_user :: "byte list \<Rightarrow> nat \<Rightarrow> nat" where
  "copy_from_user usr_buf n = n - min n (length usr_buf)"

text \<open>
  \<open>copy_to_user\<close> with \<open>room\<close> writable bytes at the user pointer: the bytes that
  reach user memory, and the number of bytes that did not.
\<close>

definition copy_to_user :: "nat \<Rightarrow> byte list \<Rightarrow> nat \<Rightarrow> byte list \<times> nat" where
  "copy_to_user room from n = (take (min n room) from, n - min n room)"

subsection \<open>add_to_buffer\<close>

definition add_to_buffer :: "byte list \<Rightarrow> ring \<Rightarrow> ring" where
  "add_to_buffer input s =
     (let row = strncpy (circular_buffer s ! nat (head s)) input (STR_SIZE - 1);
          row = row[STR_SIZE - 1 := 0];
          buf = (circular_buffer s)[nat (head s) := row];
          s = s\<lparr>circular_buffer := buf, head := (head s + 1) smod MAX_STRINGS\<rparr>
      in if line_count s < MAX_STRINGS
         then s\<lparr>line_count := line_count s + 1\<rparr>
         else s\<lparr>tail := (tail s + 1) smod MAX_STRINGS\<rparr>)"

subsection \<open>proc_read\<close>

text \<open>
  What one call of \<open>proc_read\<close> leaves behind: the returned \<open>ssize_t\<close> (\<open>Inl EFAULT\<close>
  for \<open>-EFAULT\<close>), the bytes stored in the caller's buffer, the file position and the
  ring. The arguments are the room at \<open>usr_buf\<close>, \<open>count\<close> and \<open>*pos\<close>, a signed
  \<open>loff_t\<close>; \<open>file\<close> is unused. As in the C function, \<open>tail\<close> and \<open>line_count\<close>
  are updated before \<open>copy_to_user\<close> is called and \<open>*pos\<close> after it.
\<close>

record read_result =
  ret :: "errno + int"
  usr_bytes :: "byte list"
  new_pos :: int
  new_ring :: ring

definition proc_read :: "nat \<Rightarrow> size_t \<Rightarrow> int \<Rightarrow> ring \<Rightarrow> read_result" where
  "proc_read usr_room count pos s =
     (if pos > 0 then \<lparr>ret = Inr 0, usr_bytes = [], new_pos = pos, new_ring = s\<rparr>
      else if line_count s \<le> 0
      then \<lparr>ret = Inr 0, usr_bytes = [], new_pos = pos, new_ring = s\<rparr>
      else
        let target_str = circular_buffer s ! nat (tail s);
            len = strlen target_str;
            s = s\<lparr>tail := (tail s + 1) smod MAX_STRINGS\<rparr>;
            s = s\<lparr>line_count := line_count s - 1\<rparr>;
            (copied, left) = copy_to_user usr_room target_str len
        in if left \<noteq> 0
           then \<lparr>ret = Inl EFAULT, usr_bytes = copied, new_pos = pos, new_ring = s\<rparr>
           else \<lparr>ret = Inr (int len), usr_bytes = copied,
                 new_pos = pos + int len, new_ring = s\<rparr>)"

subsection \<open>proc_write\<close>

text \<open>
  \<open>kbuf\<close> is modelled by its initialised prefix: the \<open>len\<close> bytes copied from the
  caller and the terminator stored at index \<open>len\<close>. The rest of the array is never
  read: \<open>strncpy\<close> stops at the first NUL. \<open>return count\<close> converts the \<open>size_t\<close>
  to \<open>ssize_t\<close>, which is \<open>sint\<close>. \<open>file\<close> and \<open>pos\<close> are unused.
\<close>

definition proc_write :: "byte list \<Rightarrow> size_t \<Rightarrow> ring \<Rightarrow> (errno + int) \<times> ring" where
  "proc_write usr_buf count s =
     (let len = min count (of_nat STR_SIZE - 1)
      in if copy_from_user usr_buf (unat len) \<noteq> 0 then (Inl EFAULT, s)
         else let kbuf = take (unat len) usr_buf @ [0]
              in (Inr (sint count), add_to_buffer kbuf s))"

subsection \<open>Calling the two entry points in sequence\<close>

text \<open>
  One system call on \<open>/proc/ouroboros\<close>: a write with the bytes readable at the caller's
  pointer and the requested count, or a read with the room at the caller's pointer, the
  requested count and the file position of the session.
\<close>

datatype call = Write "byte list" size_t | Read nat size_t int

fun step :: "call \<Rightarrow> ring \<Rightarrow> ring" where
  "step (Write usr_buf count) s = snd (proc_write usr_buf count s)"
| "step (Read usr_room count pos) s = new_ring (proc_read usr_room count pos s)"

definition run :: "call list \<Rightarrow> ring \<Rightarrow> ring" where
  "run calls s = fold step calls s"

text \<open>A list of writes, one after the other.\<close>

fun writes :: "(byte list \<times> size_t) list \<Rightarrow> ring \<Rightarrow> ring" where
  "writes [] s = s"
| "writes ((usr_buf, count) # ws) s = writes ws (snd (proc_write usr_buf count s))"

text \<open>
  A list of reads, each with its own room, count and position, and what each returned.
\<close>

fun reads :: "(nat \<times> size_t \<times> int) list \<Rightarrow> ring \<Rightarrow> read_result list" where
  "reads [] s = []"
| "reads ((usr_room, count, pos) # rs) s =
     (let r = proc_read usr_room count pos s in r # reads rs (new_ring r))"

text \<open>
  The reads of one session, each with its own room and count: the position that a read
  leaves is the position of the next one.
\<close>

fun session :: "(nat \<times> size_t) list \<Rightarrow> int \<Rightarrow> ring \<Rightarrow> read_result list" where
  "session [] pos s = []"
| "session ((usr_room, count) # rs) pos s =
     (let r = proc_read usr_room count pos s in r # session rs (new_pos r) (new_ring r))"

subsection \<open>Notions used to state the properties\<close>

text \<open>The C string held in a byte array: the bytes before the first NUL.\<close>

definition c_string :: "byte list \<Rightarrow> byte list" where
  "c_string s = takeWhile (\<lambda>c. c \<noteq> 0) s"

text \<open>A row is well formed when it has \<open>STR_SIZE\<close> bytes and its last byte is NUL.\<close>

definition row_ok :: "byte list \<Rightarrow> bool" where
  "row_ok row \<longleftrightarrow> length row = STR_SIZE \<and> row ! (STR_SIZE - 1) = 0"

text \<open>The state invariant: the array has its declared shape and the indices are related.\<close>

definition ring_inv :: "ring \<Rightarrow> bool" where
  "ring_inv s \<longleftrightarrow>
     length (circular_buffer s) = nat MAX_STRINGS \<and>
     list_all row_ok (circular_buffer s) \<and>
     0 \<le> head s \<and> head s < MAX_STRINGS \<and>
     0 \<le> tail s \<and> tail s < MAX_STRINGS \<and>
     0 \<le> line_count s \<and> line_count s \<le> MAX_STRINGS \<and>
     (tail s + line_count s) mod MAX_STRINGS = head s"

text \<open>The row of the \<open>i\<close>-th unread record, counted from the oldest.\<close>

definition slot :: "ring \<Rightarrow> nat \<Rightarrow> nat" where
  "slot s i = nat ((tail s + int i) mod MAX_STRINGS)"

text \<open>The unread records, oldest first.\<close>

definition pending :: "ring \<Rightarrow> byte list list" where
  "pending s = map (\<lambda>i. c_string (circular_buffer s ! slot s i)) [0..<nat (line_count s)]"

text \<open>What \<open>add_to_buffer\<close> keeps of its input, and the row it leaves.\<close>

definition kept :: "byte list \<Rightarrow> byte list" where
  "kept input = take (STR_SIZE - 1) (c_string input)"

definition stored :: "byte list \<Rightarrow> byte list" where
  "stored input = kept input @ replicate (STR_SIZE - length (kept input)) 0"

text \<open>The ring after its oldest record is dropped.\<close>

definition drop_oldest :: "ring \<Rightarrow> ring" where
  "drop_oldest s = s\<lparr>tail := (tail s + 1) mod MAX_STRINGS, line_count := line_count s - 1\<rparr>"

text \<open>
  The number of bytes \<open>proc_write\<close> takes from the caller, and the record a write
  leaves in the ring.
\<close>

definition write_len :: "size_t \<Rightarrow> nat" where
  "write_len count = unat (min count (of_nat STR_SIZE - 1))"

definition written_record :: "byte list \<Rightarrow> size_t \<Rightarrow> byte list" where
  "written_record usr_buf count = c_string (take (write_len count) usr_buf)"

section \<open>Auxiliary facts\<close>

subsection \<open>Constants, remainders and C strings\<close>

text \<open>
  On the non-negative indices of the ring the truncating remainder of C is the
  remainder of HOL.
\<close>

lemma MAX_STRINGS_pos: "0 < MAX_STRINGS"
  by (simp add: MAX_STRINGS_def)

lemma STR_SIZE_pos: "0 < STR_SIZE"
  by (simp add: STR_SIZE_def)

lemma smod_nonneg: "0 \<le> a \<Longrightarrow> 0 < b \<Longrightarrow> (a::int) smod b = a mod b"
  by (simp add: signed_modulo_int_def sgn_if)

lemma next_index: "0 \<le> i \<Longrightarrow> (i + 1) smod MAX_STRINGS = (i + 1) mod MAX_STRINGS"
  by (rule smod_nonneg) (simp_all add: MAX_STRINGS_def)

lemma strlen_le: "strlen s \<le> length s"
  by (simp add: strlen_def length_takeWhile_le)

lemma take_strlen: "take (strlen s) s = c_string s"
  unfolding strlen_def c_string_def by (rule takeWhile_eq_take [symmetric])

lemma length_c_string: "length (c_string s) = strlen s"
  by (simp add: strlen_def c_string_def)

lemma c_string_nonzero: "c \<in> set (c_string s) \<Longrightarrow> c \<noteq> 0"
  unfolding c_string_def by (auto dest: set_takeWhileD)

lemma c_string_padded:
  "\<forall>c \<in> set xs. c \<noteq> 0 \<Longrightarrow> c_string (xs @ replicate (Suc n) 0) = xs"
  by (simp add: c_string_def takeWhile_append2)

subsection \<open>The row that add_to_buffer stores\<close>

text \<open>
  After \<open>strncpy\<close> and the assignment of the last byte, a row of \<open>STR_SIZE\<close> bytes holds
  the kept bytes of the input and NULs up to its end.
\<close>

lemma strncpy_terminated:
  assumes "length dst = Suc n"
  shows "(strncpy dst src n)[n := 0]
       = take n (c_string src) @ replicate (Suc n - length (take n (c_string src))) 0"
proof -
  define k where "k = min (strlen src) n"
  have k: "k \<le> n" by (simp add: k_def)
  have "take k src = take n (take (strlen src) src)"
    by (simp add: k_def min.commute)
  then have tk: "take k src = take n (c_string src)"
    by (simp only: take_strlen)
  have lk: "length (take n (c_string src)) = k"
    by (simp add: k_def length_c_string min.commute)
  have "drop n dst = [dst ! n]"
    using assms by (metis Cons_nth_drop_Suc drop_all lessI order_refl)
  then have "strncpy dst src n = (take k src @ replicate (n - k) 0) @ [dst ! n]"
    by (simp add: strncpy_def Let_def k_def)
  moreover have "length (take k src @ replicate (n - k) 0) = n"
    using k lk tk by simp
  ultimately have "(strncpy dst src n)[n := 0] = (take k src @ replicate (n - k) 0) @ [0]"
    by (metis list_update_length)
  also have "\<dots> = take k src @ replicate (Suc (n - k)) 0"
    by (simp add: replicate_append_same)
  also have "Suc (n - k) = Suc n - k"
    using k by simp
  finally show ?thesis by (simp only: tk lk)
qed

lemma length_kept: "length (kept input) \<le> STR_SIZE - 1"
  by (simp add: kept_def)

lemma kept_nonzero: "\<forall>c \<in> set (kept src). c \<noteq> 0"
  unfolding kept_def by (auto dest: in_set_takeD c_string_nonzero)

lemma STR_SIZE_Suc: "STR_SIZE = Suc (STR_SIZE - 1)"
  by (simp add: STR_SIZE_def)

lemma stored_row:
  assumes "length dst = STR_SIZE"
  shows "(strncpy dst src (STR_SIZE - 1))[STR_SIZE - 1 := 0]
       = kept src @ replicate (STR_SIZE - length (kept src)) 0"
proof -
  have "length dst = Suc (STR_SIZE - 1)"
    using assms STR_SIZE_Suc by simp
  from strncpy_terminated [OF this, of src] show ?thesis
    unfolding kept_def STR_SIZE_Suc [symmetric] .
qed

lemma strlen_row_ok:
  assumes "row_ok row"
  shows "strlen row \<le> STR_SIZE - 1"
proof (rule ccontr)
  assume "\<not> strlen row \<le> STR_SIZE - 1"
  then have lt: "STR_SIZE - 1 < length (takeWhile (\<lambda>c. c \<noteq> 0) row)"
    by (simp add: strlen_def)
  then have "takeWhile (\<lambda>c. c \<noteq> 0) row ! (STR_SIZE - 1) = row ! (STR_SIZE - 1)"
    by (rule takeWhile_nth)
  moreover have "takeWhile (\<lambda>c. c \<noteq> 0) row ! (STR_SIZE - 1) \<in> set (takeWhile (\<lambda>c. c \<noteq> 0) row)"
    using lt by (rule nth_mem)
  ultimately show False
    using assms by (auto simp: row_ok_def dest: set_takeWhileD)
qed

subsection \<open>Slots of the unread records\<close>

lemma length_pending: "length (pending s) = nat (line_count s)"
  by (simp add: pending_def)

lemma mod_shift_inj:
  fixes t i j n :: int
  assumes "0 \<le> i" "i < n" "0 \<le> j" "j < n" "(t + i) mod n = (t + j) mod n"
  shows "i = j"
proof -
  have "n dvd (t + i) - (t + j)"
    using assms(5) by (simp only: mod_eq_dvd_iff)
  then have d: "n dvd i - j"
    by simp
  then have d': "n dvd j - i"
    by (metis dvd_minus_iff minus_diff_eq)
  show ?thesis
  proof (rule ccontr)
    assume "i \<noteq> j"
    then consider "0 < i - j" "i - j < n" | "0 < j - i" "j - i < n"
      using assms by linarith
    then show False
      by cases (use d d' zdvd_not_zless [of "i - j" n] zdvd_not_zless [of "j - i" n] in auto)
  qed
qed

lemma slot_inj:
  assumes "i < nat MAX_STRINGS" "j < nat MAX_STRINGS" "slot s i = slot s j"
  shows "i = j"
proof -
  have "0 \<le> (tail s + int i) mod MAX_STRINGS" "0 \<le> (tail s + int j) mod MAX_STRINGS"
    using MAX_STRINGS_pos by simp_all
  then have "(tail s + int i) mod MAX_STRINGS = (tail s + int j) mod MAX_STRINGS"
    using assms(3) by (simp add: slot_def eq_nat_nat_iff)
  with assms(1,2) have "int i = int j"
    by (intro mod_shift_inj [of "int i" MAX_STRINGS "int j" "tail s"]) simp_all
  then show ?thesis by simp
qed

lemma slot_head:
  assumes "ring_inv s"
  shows "slot s (nat (line_count s)) = nat (head s)"
  using assms by (simp add: ring_inv_def slot_def)

lemma list_all_update: "list_all P xs \<Longrightarrow> P x \<Longrightarrow> list_all P (xs[i := x])"
  unfolding list_all_iff using set_update_subset_insert [of xs i x] by auto

lemma c_string_stored: "c_string (stored x) = kept x"
proof -
  obtain m where m: "STR_SIZE - length (kept x) = Suc m"
    using length_kept [of x] STR_SIZE_pos by (cases "STR_SIZE - length (kept x)") auto
  show ?thesis
    unfolding stored_def m using kept_nonzero by (rule c_string_padded)
qed

lemma row_ok_stored: "row_ok (stored x)"
proof -
  have "length (kept x) \<le> STR_SIZE - 1" by (rule length_kept)
  then show ?thesis
    unfolding stored_def row_ok_def using STR_SIZE_pos
    by (auto simp: nth_append)
qed

subsection \<open>add_to_buffer keeps the invariant and appends a record\<close>

text \<open>
  With room left the new record joins the unread ones at the end; on a full ring the
  oldest one goes as well.
\<close>

lemma ring_inv_row:
  assumes "ring_inv s" "0 \<le> i" "i < MAX_STRINGS"
  shows "row_ok (circular_buffer s ! nat i)"
  using assms by (simp add: ring_inv_def list_all_length)

lemma add_to_buffer_fields:
  assumes "ring_inv s"
  shows "circular_buffer (add_to_buffer x s) = (circular_buffer s)[nat (head s) := stored x]"
    and "head (add_to_buffer x s) = (head s + 1) mod MAX_STRINGS"
    and "tail (add_to_buffer x s)
           = (if line_count s < MAX_STRINGS then tail s else (tail s + 1) mod MAX_STRINGS)"
    and "line_count (add_to_buffer x s)
           = (if line_count s < MAX_STRINGS then line_count s + 1 else line_count s)"
proof -
  have "row_ok (circular_buffer s ! nat (head s))"
    using assms by (intro ring_inv_row) (simp_all add: ring_inv_def)
  then have "length (circular_buffer s ! nat (head s)) = STR_SIZE"
    by (simp add: row_ok_def)
  then have row: "(strncpy (circular_buffer s ! nat (head s)) x (STR_SIZE - 1))[STR_SIZE - 1 := 0]
      = stored x"
    unfolding stored_def by (rule stored_row)
  have nh: "(head s + 1) smod MAX_STRINGS = (head s + 1) mod MAX_STRINGS"
    and nt: "(tail s + 1) smod MAX_STRINGS = (tail s + 1) mod MAX_STRINGS"
    using assms by (simp_all add: ring_inv_def next_index)
  show "circular_buffer (add_to_buffer x s) = (circular_buffer s)[nat (head s) := stored x]"
    using row by (simp add: add_to_buffer_def Let_def)
  show "head (add_to_buffer x s) = (head s + 1) mod MAX_STRINGS"
    by (simp add: add_to_buffer_def Let_def nh)
  show "tail (add_to_buffer x s)
           = (if line_count s < MAX_STRINGS then tail s else (tail s + 1) mod MAX_STRINGS)"
    by (simp add: add_to_buffer_def Let_def nt)
  show "line_count (add_to_buffer x s)
           = (if line_count s < MAX_STRINGS then line_count s + 1 else line_count s)"
    by (simp add: add_to_buffer_def Let_def)
qed

lemma add_to_buffer_inv:
  assumes "ring_inv s"
  shows "ring_inv (add_to_buffer x s)"
proof -
  note f = add_to_buffer_fields [OF assms, of x]
  have rows: "list_all row_ok ((circular_buffer s)[nat (head s) := stored x])"
    using assms by (simp add: ring_inv_def list_all_update row_ok_stored)
  have len: "length ((circular_buffer s)[nat (head s) := stored x]) = nat MAX_STRINGS"
    using assms by (simp add: ring_inv_def)
  have rng: "0 \<le> (head s + 1) mod MAX_STRINGS" "(head s + 1) mod MAX_STRINGS < MAX_STRINGS"
    "0 \<le> (tail s + 1) mod MAX_STRINGS" "(tail s + 1) mod MAX_STRINGS < MAX_STRINGS"
    using MAX_STRINGS_pos by simp_all
  have h: "head s = (tail s + line_count s) mod MAX_STRINGS"
    using assms by (simp add: ring_inv_def)
  show ?thesis
  proof (cases "line_count s < MAX_STRINGS")
    case True
    have "(tail s + (line_count s + 1)) mod MAX_STRINGS = (head s + 1) mod MAX_STRINGS"
      unfolding h by (simp add: mod_simps add.assoc)
    with True assms rows len rng show ?thesis
      unfolding ring_inv_def f by simp
  next
    case False
    then have full: "line_count s = MAX_STRINGS"
      using assms by (simp add: ring_inv_def)
    have "((tail s + 1) mod MAX_STRINGS + line_count s) mod MAX_STRINGS
        = (head s + 1) mod MAX_STRINGS"
      unfolding h full by (simp add: mod_simps)
    with False assms rows len rng show ?thesis
      unfolding ring_inv_def f by simp
  qed
qed

lemma slot_Suc:
  "nat ((((t::int) + 1) mod MAX_STRINGS + int i) mod MAX_STRINGS)
     = nat ((t + int (Suc i)) mod MAX_STRINGS)"
  by (simp add: mod_simps ac_simps)

lemma pending_add_room:
  assumes "ring_inv s" "line_count s < MAX_STRINGS"
  shows "pending (add_to_buffer x s) = pending s @ [kept x]"
proof -
  note f = add_to_buffer_fields [OF assms(1), of x]
  let ?n = "nat (line_count s)"
  have n: "?n < nat MAX_STRINGS" "0 \<le> line_count s"
    using assms by (simp_all add: ring_inv_def)
  have hd_in: "nat (head s) < length (circular_buffer s)"
    using assms by (simp add: ring_inv_def)
  have sl: "slot (add_to_buffer x s) i = slot s i" for i
    using assms(2) by (simp add: slot_def f)
  have old: "(circular_buffer s)[nat (head s) := stored x] ! slot s i = circular_buffer s ! slot s i"
    if "i < ?n" for i
  proof -
    have "slot s i \<noteq> slot s ?n"
      using that n slot_inj [of i ?n s] by auto
    then show ?thesis
      by (simp add: slot_head [OF assms(1)])
  qed
  have new: "(circular_buffer s)[nat (head s) := stored x] ! slot s ?n = stored x"
    using hd_in by (simp add: slot_head [OF assms(1)])
  have "nat (line_count s + 1) = Suc ?n"
    using n by simp
  then have "pending (add_to_buffer x s)
      = map (\<lambda>i. c_string ((circular_buffer s)[nat (head s) := stored x] ! slot s i)) [0..<?n]
        @ [c_string ((circular_buffer s)[nat (head s) := stored x] ! slot s ?n)]"
    using assms(2) by (simp add: pending_def f sl)
  also have "map (\<lambda>i. c_string ((circular_buffer s)[nat (head s) := stored x] ! slot s i)) [0..<?n]
      = pending s"
    unfolding pending_def by (rule map_cong) (simp_all add: old)
  finally show ?thesis
    by (simp add: new c_string_stored)
qed

lemma pending_add_full:
  assumes "ring_inv s" "line_count s = MAX_STRINGS"
  shows "pending (add_to_buffer x s) = tl (pending s) @ [kept x]"
proof -
  note f = add_to_buffer_fields [OF assms(1), of x]
  obtain m where m: "nat MAX_STRINGS = Suc m"
    using MAX_STRINGS_pos by (cases "nat MAX_STRINGS") auto
  have hd_in: "nat (head s) < length (circular_buffer s)"
    using assms by (simp add: ring_inv_def)
  have ht: "nat (head s) = slot s 0"
  proof -
    have "(tail s + MAX_STRINGS) mod MAX_STRINGS = head s"
      using assms by (simp add: ring_inv_def)
    then show ?thesis by (simp add: slot_def)
  qed
  have sl: "slot (add_to_buffer x s) i = slot s (Suc i)" for i
    using assms(2) by (simp add: slot_def f slot_Suc del: of_nat_Suc)
  have wrap: "slot s (Suc m) = slot s 0"
  proof -
    have "int (Suc m) = MAX_STRINGS"
      using m MAX_STRINGS_pos by linarith
    then show ?thesis
      unfolding slot_def by (simp del: of_nat_Suc)
  qed
  have old: "(circular_buffer s)[nat (head s) := stored x] ! slot s (Suc i)
      = circular_buffer s ! slot s (Suc i)" if "i < m" for i
  proof -
    have "slot s (Suc i) \<noteq> slot s 0"
      using that m slot_inj [of "Suc i" 0 s] by auto
    then show ?thesis
      by (simp add: ht)
  qed
  have new: "(circular_buffer s)[nat (head s) := stored x] ! slot s (Suc m) = stored x"
    using hd_in by (simp add: wrap ht [symmetric])
  have "pending (add_to_buffer x s)
      = map (\<lambda>i. c_string ((circular_buffer s)[nat (head s) := stored x] ! slot s (Suc i))) [0..<m]
        @ [c_string ((circular_buffer s)[nat (head s) := stored x] ! slot s (Suc m))]"
    using assms(2) by (simp add: pending_def f sl m)
  also have "map (\<lambda>i. c_string ((circular_buffer s)[nat (head s) := stored x] ! slot s (Suc i))) [0..<m]
      = map (\<lambda>i. c_string (circular_buffer s ! slot s (Suc i))) [0..<m]"
    by (rule map_cong) (simp_all add: old)
  also have "\<dots> = tl (pending s)"
    unfolding pending_def assms(2) m
    by (simp add: map_tl [symmetric] map_Suc_upt [symmetric] map_upt_Suc del: upt_Suc)
  finally show ?thesis
    by (simp add: new c_string_stored)
qed

subsection \<open>The paths of proc_read\<close>

lemma proc_read_suppressed:
  "0 < pos \<Longrightarrow> proc_read room count pos s
      = \<lparr>ret = Inr 0, usr_bytes = [], new_pos = pos, new_ring = s\<rparr>"
  by (simp add: proc_read_def)

lemma proc_read_empty:
  "line_count s \<le> 0 \<Longrightarrow> proc_read room count pos s
      = \<lparr>ret = Inr 0, usr_bytes = [], new_pos = pos, new_ring = s\<rparr>"
  by (simp add: proc_read_def)

lemma proc_read_oldest:
  assumes "0 \<le> tail s" "pos \<le> 0" "0 < line_count s"
  shows "proc_read room count pos s =
     (let row = circular_buffer s ! nat (tail s)
      in if room < strlen row
         then \<lparr>ret = Inl EFAULT, usr_bytes = take room row, new_pos = pos,
               new_ring = drop_oldest s\<rparr>
         else \<lparr>ret = Inr (int (strlen row)), usr_bytes = c_string row,
               new_pos = pos + int (strlen row), new_ring = drop_oldest s\<rparr>)"
proof -
  have nt: "(tail s + 1) smod MAX_STRINGS = (tail s + 1) mod MAX_STRINGS"
    using assms(1) by (rule next_index)
  have "min (strlen row) room = (if room < strlen row then room else strlen row)" for row :: "byte list"
    by simp
  then show ?thesis
    using assms(2,3)
    by (simp add: proc_read_def Let_def copy_to_user_def nt drop_oldest_def take_strlen)
qed

lemma drop_oldest_inv:
  assumes "ring_inv s" "0 < line_count s"
  shows "ring_inv (drop_oldest s)"
proof -
  have rng: "0 \<le> (tail s + 1) mod MAX_STRINGS" "(tail s + 1) mod MAX_STRINGS < MAX_STRINGS"
    using MAX_STRINGS_pos by simp_all
  have h: "head s = (tail s + line_count s) mod MAX_STRINGS"
    using assms by (simp add: ring_inv_def)
  have "((tail s + 1) mod MAX_STRINGS + (line_count s - 1)) mod MAX_STRINGS = head s"
    unfolding h by (simp add: mod_simps)
  with assms rng show ?thesis
    by (simp add: ring_inv_def drop_oldest_def)
qed

lemma pending_drop_oldest:
  assumes "0 < line_count s"
  shows "pending (drop_oldest s) = tl (pending s)"
proof -
  obtain m where m: "nat (line_count s) = Suc m"
    using assms by (cases "nat (line_count s)") auto
  then have m': "nat (line_count s - 1) = m"
    by simp
  have sl: "slot (drop_oldest s) i = slot s (Suc i)" for i
    by (simp add: slot_def drop_oldest_def slot_Suc del: of_nat_Suc)
  have "circular_buffer (drop_oldest s) = circular_buffer s"
    "line_count (drop_oldest s) = line_count s - 1"
    by (simp_all add: drop_oldest_def)
  then show ?thesis
    unfolding pending_def m sl
    by (simp add: m' map_tl [symmetric] map_Suc_upt [symmetric] map_upt_Suc del: upt_Suc)
qed

lemma hd_pending:
  assumes "0 < line_count s" "0 \<le> tail s" "tail s < MAX_STRINGS"
  shows "hd (pending s) = c_string (circular_buffer s ! nat (tail s))"
proof -
  obtain m where m: "nat (line_count s) = Suc m"
    using assms by (cases "nat (line_count s)") auto
  show ?thesis
    unfolding pending_def m using assms(2,3)
    by (simp add: upt_conv_Cons slot_def del: upt_Suc)
qed

subsection \<open>proc_write\<close>

lemma write_len_eq: "write_len count = min (unat count) (STR_SIZE - 1)"
proof -
  have "unat (of_nat STR_SIZE - 1 :: size_t) = STR_SIZE - 1"
    by (simp add: STR_SIZE_def)
  then show ?thesis
    unfolding write_len_def min_def by (simp add: word_le_nat_alt)
qed

lemma c_string_snoc_nul: "c_string (xs @ [0]) = c_string xs"
  unfolding c_string_def by (induction xs) simp_all

lemma kept_kbuf: "kept (take (write_len count) usr_buf @ [0]) = written_record usr_buf count"
proof -
  have "length (c_string (take (write_len count) usr_buf)) \<le> STR_SIZE - 1"
    using strlen_le [of "take (write_len count) usr_buf"]
    by (simp add: length_c_string write_len_eq)
  then show ?thesis
    by (simp add: kept_def written_record_def c_string_snoc_nul)
qed

lemma proc_write_ok:
  assumes "write_len count \<le> length usr_buf"
  shows "proc_write usr_buf count s
       = (Inr (sint count), add_to_buffer (take (write_len count) usr_buf @ [0]) s)"
  using assms by (simp add: proc_write_def Let_def copy_from_user_def write_len_def)

lemma proc_write_fault:
  assumes "length usr_buf < write_len count"
  shows "proc_write usr_buf count s = (Inl EFAULT, s)"
  using assms by (simp add: proc_write_def Let_def copy_from_user_def write_len_def)

lemma proc_write_inv: "ring_inv s \<Longrightarrow> ring_inv (snd (proc_write usr_buf count s))"
  by (cases "write_len count \<le> length usr_buf")
    (simp_all add: proc_write_ok proc_write_fault add_to_buffer_inv)

lemma proc_read_inv:
  assumes "ring_inv s"
  shows "ring_inv (new_ring (proc_read room count pos s))"
proof -
  consider "0 < pos" | "line_count s \<le> 0" | "pos \<le> 0" "0 < line_count s"
    by linarith
  then show ?thesis
  proof cases
    case 3
    moreover have "0 \<le> tail s" using assms by (simp add: ring_inv_def)
    ultimately show ?thesis
      using assms by (simp add: proc_read_oldest Let_def drop_oldest_inv)
  qed (simp_all add: proc_read_suppressed proc_read_empty assms)
qed

subsection \<open>Sequences of calls\<close>

lemma init_ring_inv: "ring_inv init_ring"
  using MAX_STRINGS_pos STR_SIZE_pos
  by (simp add: ring_inv_def init_ring_def list_all_length row_ok_def)

lemma pending_init: "pending init_ring = []"
  by (simp add: pending_def init_ring_def)

lemma length_pending_le: "ring_inv s \<Longrightarrow> length (pending s) \<le> nat MAX_STRINGS"
  by (simp add: length_pending ring_inv_def nat_mono)

lemma pending_add:
  assumes "ring_inv s"
  shows "pending (add_to_buffer x s)
       = drop (length (pending s) + 1 - nat MAX_STRINGS) (pending s @ [kept x])"
proof (cases "line_count s < MAX_STRINGS")
  case True
  then have "nat (line_count s) < nat MAX_STRINGS"
    using MAX_STRINGS_pos by (simp add: zless_nat_conj)
  then have "length (pending s) + 1 - nat MAX_STRINGS = 0"
    unfolding length_pending by arith
  then show ?thesis
    using assms True by (simp add: pending_add_room)
next
  case False
  then have full: "line_count s = MAX_STRINGS"
    using assms by (simp add: ring_inv_def)
  then have "length (pending s) = nat MAX_STRINGS"
    by (simp add: length_pending)
  moreover from this have "pending s \<noteq> []"
    using MAX_STRINGS_pos by auto
  ultimately show ?thesis
    using assms full by (cases "pending s") (simp_all add: pending_add_full)
qed

lemma drop_count:
  fixes p n w :: nat
  assumes "p \<le> n"
  shows "p + 1 - (p + 1 - n) + w - n + (p + 1 - n) = p + (w + 1) - n"
  using assms by arith

lemma writes_pending:
  assumes "ring_inv s"
    and "\<forall>(u, c) \<in> set ws. write_len c \<le> length u"
  shows "ring_inv (writes ws s) \<and>
         pending (writes ws s)
           = drop (length (pending s) + length ws - nat MAX_STRINGS)
               (pending s @ map (\<lambda>(u, c). written_record u c) ws)"
  using assms
proof (induction ws arbitrary: s)
  case Nil
  have "length (pending s) \<le> nat MAX_STRINGS"
    using Nil.prems(1) by (rule length_pending_le)
  with Nil show ?case by simp
next
  case (Cons w ws)
  obtain u c where w: "w = (u, c)" by (cases w)
  let ?s = "add_to_buffer (take (write_len c) u @ [0]) s"
  let ?R = "map (\<lambda>(u, c). written_record u c) ws"
  let ?d = "length (pending s) + 1 - nat MAX_STRINGS"
  have ok: "write_len c \<le> length u"
    using Cons.prems(2) w by simp
  have inv: "ring_inv ?s"
    using Cons.prems(1) by (rule add_to_buffer_inv)
  have le: "length (pending s) \<le> nat MAX_STRINGS"
    using Cons.prems(1) by (rule length_pending_le)
  have p: "pending ?s = drop ?d (pending s @ [written_record u c])"
    using Cons.prems(1) by (simp add: pending_add kept_kbuf)
  have "ring_inv (writes ws ?s) \<and>
        pending (writes ws ?s) = drop (length (pending ?s) + length ws - nat MAX_STRINGS) (pending ?s @ ?R)"
    using inv Cons.prems(2) by (intro Cons.IH) simp_all
  moreover have "drop (length (pending ?s) + length ws - nat MAX_STRINGS) (pending ?s @ ?R)
      = drop (length (pending s) + length (w # ws) - nat MAX_STRINGS)
          (pending s @ map (\<lambda>(u, c). written_record u c) (w # ws))"
  proof -
    let ?X = "pending s @ map (\<lambda>(u, c). written_record u c) (w # ws)"
    have "Suc 0 - nat MAX_STRINGS = 0"
      using MAX_STRINGS_pos by simp
    then have a: "pending ?s @ ?R = drop ?d ?X"
      using le by (simp add: p w)
    have "length (pending ?s) = length (pending s) + 1 - ?d"
      by (simp add: p)
    then have b: "length (pending ?s) + length ws - nat MAX_STRINGS + ?d
        = length (pending s) + length (w # ws) - nat MAX_STRINGS"
      using le by (simp only: drop_count list.size)
    show ?thesis
      by (simp only: a drop_drop b)
  qed
  ultimately show ?case
    by (simp add: w proc_write_ok [OF ok])
qed

lemma reads_pending:
  assumes "ring_inv s" "STR_SIZE - 1 \<le> room"
  shows "map (\<lambda>r. (ret r, usr_bytes r)) (reads (replicate (Suc (nat (line_count s))) (room, count, 0)) s)
       = map (\<lambda>a. (Inr (int (length a)), a)) (pending s) @ [(Inr 0, [])]"
  using assms(1)
proof (induction "nat (line_count s)" arbitrary: s)
  case 0
  then have "line_count s \<le> 0" by simp
  then show ?case
    by (simp add: proc_read_empty pending_def)
next
  case (Suc n)
  then have pos: "0 < line_count s" by linarith
  have t: "0 \<le> tail s" "tail s < MAX_STRINGS"
    using Suc.prems by (simp_all add: ring_inv_def)
  let ?row = "circular_buffer s ! nat (tail s)"
  have "row_ok ?row"
    using Suc.prems t by (rule ring_inv_row)
  then have fits: "\<not> room < strlen ?row"
    using strlen_row_ok [of ?row] assms(2) by simp
  have r: "proc_read room count 0 s
      = \<lparr>ret = Inr (int (strlen ?row)), usr_bytes = c_string ?row,
         new_pos = int (strlen ?row), new_ring = drop_oldest s\<rparr>"
    using fits by (simp add: proc_read_oldest [OF t(1) _ pos] Let_def)
  have n: "n = nat (line_count (drop_oldest s))"
    using Suc.hyps(2) by (simp add: drop_oldest_def)
  have inv: "ring_inv (drop_oldest s)"
    using Suc.prems pos by (rule drop_oldest_inv)
  have ne: "pending s \<noteq> []"
    using pos by (simp add: pending_def)
  have "map (\<lambda>r. (ret r, usr_bytes r)) (reads (replicate (Suc (Suc n)) (room, count, 0)) s)
      = (Inr (int (strlen ?row)), c_string ?row)
        # map (\<lambda>r. (ret r, usr_bytes r)) (reads (replicate (Suc n) (room, count, 0)) (drop_oldest s))"
    by (simp add: r Let_def)
  also have "map (\<lambda>r. (ret r, usr_bytes r)) (reads (replicate (Suc n) (room, count, 0)) (drop_oldest s))
      = map (\<lambda>a. (Inr (int (length a)), a)) (tl (pending s)) @ [(Inr 0, [])]"
    unfolding n using Suc.hyps(1) [OF n inv] by (simp only: pending_drop_oldest [OF pos])
  also have "(Inr (int (strlen ?row)), c_string ?row) = (\<lambda>a. (Inr (int (length a)), a)) (hd (pending s))"
    by (simp add: hd_pending [OF pos t] length_c_string)
  finally show ?case
    using ne Suc.hyps(2) [symmetric] by (cases "pending s") simp_all
qed

lemma step_inv: "ring_inv s \<Longrightarrow> ring_inv (step c s)"
  by (cases c) (simp_all add: proc_write_inv proc_read_inv)

lemma run_inv: "ring_inv s \<Longrightarrow> ring_inv (run calls s)"
  unfolding run_def by (induction calls arbitrary: s) (simp_all add: step_inv)

lemma written_record_text:
  assumes "0 \<notin> set a" "length a \<le> STR_SIZE - 1"
  shows "written_record a (of_nat (length a)) = a"
proof -
  have "length a < 2 ^ 64"
    using assms(2) by (simp add: STR_SIZE_def)
  then have "unat (of_nat (length a) :: size_t) = length a"
    by (simp add: unat_of_nat)
  then have "write_len (of_nat (length a)) = length a"
    using assms(2) by (simp add: write_len_eq)
  moreover have "c_string a = a"
    unfolding c_string_def using assms(1) by (intro takeWhile_eq_all_conv [THEN iffD2]) auto
  ultimately show ?thesis
    by (simp add: written_record_def)
qed

lemma full_ring_inv: "ring_inv (init_ring\<lparr>line_count := MAX_STRINGS\<rparr>)"
  using init_ring_inv MAX_STRINGS_pos by (simp add: ring_inv_def init_ring_def)

lemma pending_empty: "line_count s = 0 \<Longrightarrow> pending s = []"
  by (simp add: pending_def)

lemma writes_empty:
  assumes "ring_inv s" "line_count s = 0"
    and "\<forall>(u, c) \<in> set ws. write_len c \<le> length u"
  shows "ring_inv (writes ws s)"
    and "pending (writes ws s)
       = drop (length ws - nat MAX_STRINGS) (map (\<lambda>(u, c). written_record u c) ws)"
  using writes_pending [OF assms(1,3)] by (simp_all add: pending_empty [OF assms(2)])

lemma writes_init:
  assumes "\<forall>(u, c) \<in> set ws. write_len c \<le> length u"
  shows "ring_inv (writes ws init_ring)"
    and "pending (writes ws init_ring)
       = drop (length ws - nat MAX_STRINGS) (map (\<lambda>(u, c). written_record u c) ws)"
  using writes_empty [OF init_ring_inv _ assms] by (simp_all add: init_ring_def)

subsection \<open>The state in terms of its unread records\<close>

lemma line_count_pending: "ring_inv s \<Longrightarrow> line_count s = int (length (pending s))"
  by (simp add: length_pending ring_inv_def)

lemma c_string_oldest:
  assumes "ring_inv s" "0 < line_count s"
  shows "c_string (circular_buffer s ! nat (tail s)) = hd (pending s)"
  using assms by (simp add: hd_pending ring_inv_def)

lemma proc_read_fresh:
  assumes "ring_inv s" "0 < line_count s" "STR_SIZE - 1 \<le> room"
  shows "proc_read room count 0 s
       = \<lparr>ret = Inr (int (length (hd (pending s)))), usr_bytes = hd (pending s),
          new_pos = int (length (hd (pending s))), new_ring = drop_oldest s\<rparr>"
proof -
  let ?row = "circular_buffer s ! nat (tail s)"
  have t: "0 \<le> tail s" "tail s < MAX_STRINGS"
    using assms(1) by (simp_all add: ring_inv_def)
  have "row_ok ?row"
    using assms(1) t by (rule ring_inv_row)
  then have "\<not> room < strlen ?row"
    using strlen_row_ok [of ?row] assms(3) by simp
  then show ?thesis
    using c_string_oldest [OF assms(1,2)] length_c_string [of ?row]
    by (simp add: proc_read_oldest [OF t(1) _ assms(2)] Let_def)
qed

lemma proc_read_fault:
  assumes "ring_inv s" "0 < line_count s" "pos \<le> 0"
    and "room < length (hd (pending s))"
  shows "proc_read room count pos s
       = \<lparr>ret = Inl EFAULT, usr_bytes = take room (hd (pending s)), new_pos = pos,
          new_ring = drop_oldest s\<rparr>"
proof -
  let ?row = "circular_buffer s ! nat (tail s)"
  have t: "0 \<le> tail s"
    using assms(1) by (simp add: ring_inv_def)
  have c: "c_string ?row = hd (pending s)"
    using assms(1,2) by (rule c_string_oldest)
  then have l: "room < strlen ?row"
    using assms(4) length_c_string [of ?row] by simp
  have "take room (take (strlen ?row) ?row) = take room ?row"
    using l by (simp add: min.absorb1)
  then have "take room ?row = take room (hd (pending s))"
    by (simp only: take_strlen c)
  then show ?thesis
    using l by (simp add: proc_read_oldest [OF t assms(3,2)] Let_def)
qed

lemma written_row:
  assumes "ring_inv s" "write_len count \<le> length usr_buf"
  shows "circular_buffer (snd (proc_write usr_buf count s)) ! nat (head s)
       = written_record usr_buf count
         @ replicate (STR_SIZE - length (written_record usr_buf count)) 0"
proof -
  have "nat (head s) < length (circular_buffer s)"
    using assms(1) by (simp add: ring_inv_def)
  then show ?thesis
    by (simp add: proc_write_ok [OF assms(2)] add_to_buffer_fields [OF assms(1)]
        stored_def kept_kbuf)
qed

lemma pending_written:
  assumes "ring_inv s" "write_len count \<le> length usr_buf"
  shows "pending (snd (proc_write usr_buf count s))
       = drop (length (pending s) + 1 - nat MAX_STRINGS)
           (pending s @ [written_record usr_buf count])"
  by (simp add: proc_write_ok [OF assms(2)] pending_add [OF assms(1)] kept_kbuf)

subsection \<open>Return value and position\<close>

lemma sint_fits:
  fixes count :: size_t
  assumes "unat count < 2 ^ 63"
  shows "sint count = int (unat count)"
proof -
  have lt: "uint count < 2 ^ 63"
    by (metis (lifting) assms of_nat_less_numeral_power_cancel_iff of_nat_unat)
  have "- (2 ^ 63) \<le> (0 :: int)"
    by simp
  also have "0 \<le> uint count"
    by (rule uint_ge_0)
  finally have "signed_take_bit 63 (uint count) = uint count"
    using lt by (rule signed_take_bit_int_eq_self)
  moreover have "LENGTH(64) - Suc 0 = 63"
    by simp
  ultimately have "sint count = uint count"
    by (simp only: sint_uint)
  then show ?thesis
    by (simp only: of_nat_unat)
qed

lemma pos_stays_nonneg: "0 \<le> pos \<Longrightarrow> 0 \<le> new_pos (proc_read room count pos s)"
  by (simp add: proc_read_def Let_def copy_to_user_def)

lemma session_suppressed:
  assumes "0 < pos"
  shows "session rs pos s
       = map (\<lambda>(room, count). \<lparr>ret = Inr 0, usr_bytes = [], new_pos = pos, new_ring = s\<rparr>) rs"
proof (induction rs)
  case Nil
  show ?case by simp
next
  case (Cons r rs)
  obtain room count where r: "r = (room, count)"
    by (cases r)
  have "proc_read room count pos s
      = \<lparr>ret = Inr 0, usr_bytes = [], new_pos = pos, new_ring = s\<rparr>"
    using assms by (rule proc_read_suppressed)
  with Cons.IH show ?case
    by (simp add: r Let_def)
qed

section \<open>The claims\<close>

text \<open>
  C1. Take an empty ring (a state that satisfies the invariant, with \<open>line_count = 0\<close>;
  the initial state is one) and any \<open>k \<le> MAX_STRINGS\<close> writes whose copy from the
  caller succeeds, with no read in between. Then \<open>k + 1\<close> reads, each in a fresh session
  (position 0) and with room for a full record, return in this order the records of
  the first, second, ..., \<open>k\<close>-th write, each with its length, and the last read
  returns 0 and stores nothing. The record of a write is \<open>written_record\<close>: the first
  \<open>min count (STR_SIZE - 1)\<close> bytes of the caller's buffer, up to their first NUL; for a
  NUL-free text of at most \<open>STR_SIZE - 1\<close> bytes it is the text itself
  (\<open>written_record_text\<close>).
\<close>

theorem fifo_delivery:
  assumes "ring_inv s"
    and "line_count s = 0"
    and "length ws \<le> nat MAX_STRINGS"
    and "\<forall>(u, c) \<in> set ws. write_len c \<le> length u"
    and "STR_SIZE - 1 \<le> room"
  shows "map (\<lambda>r. (ret r, usr_bytes r))
           (reads (replicate (Suc (length ws)) (room, count, 0)) (writes ws s))
       = map (\<lambda>(u, c). (Inr (int (length (written_record u c))), written_record u c)) ws
         @ [(Inr 0, [])]"
proof -
  let ?s = "writes ws s"
  have inv: "ring_inv ?s"
    using assms(1,2,4) by (rule writes_empty)
  have p: "pending ?s = map (\<lambda>(u, c). written_record u c) ws"
    using assms(3) by (simp add: writes_empty(2) [OF assms(1,2,4)])
  then have "nat (line_count ?s) = length ws"
    using length_pending [of ?s] by simp
  then have "map (\<lambda>r. (ret r, usr_bytes r))
           (reads (replicate (Suc (length ws)) (room, count, 0)) ?s)
       = map (\<lambda>a. (Inr (int (length a)), a)) (pending ?s) @ [(Inr 0, [])]"
    using reads_pending [OF inv assms(5), of count] by simp
  also have "map (\<lambda>a. (Inr (int (length a)), a)) (pending ?s)
      = map (\<lambda>(u, c). (Inr (int (length (written_record u c))), written_record u c)) ws"
    unfolding p by (simp add: case_prod_unfold comp_def)
  finally show ?thesis .
qed

theorem fifo_delivery_witness:
  "map (\<lambda>r. (ret r, usr_bytes r))
     (reads [(63, 4096, 0), (63, 4096, 0), (63, 4096, 0), (63, 4096, 0)]
        (writes [([0x61, 0x62], 2), ([0x63], 1), ([0x64, 0x65, 0x66], 3)] init_ring))
   = [(Inr 2, [0x61, 0x62]), (Inr 1, [0x63]), (Inr 3, [0x64, 0x65, 0x66]), (Inr 0, [])]"
proof -
  have "line_count init_ring = 0"
    by (simp add: init_ring_def)
  with init_ring_inv show ?thesis
    using fifo_delivery [of init_ring "[([0x61, 0x62], 2), ([0x63], 1), ([0x64, 0x65, 0x66], 3)]"
        63 4096]
    by (simp add: written_record_def write_len_eq c_string_def MAX_STRINGS_def STR_SIZE_def)
qed

text \<open>
  C2. In a state that satisfies the invariant and has \<open>line_count = MAX_STRINGS\<close>,
  \<open>add_to_buffer\<close> advances \<open>tail\<close> to \<open>(tail + 1) mod MAX_STRINGS\<close>, leaves
  \<open>line_count\<close> at \<open>MAX_STRINGS\<close>, and the unread records lose the oldest one and gain
  the new one. So after \<open>MAX_STRINGS + 1\<close> writes on an empty ring (the initial state is
  one) a read in a fresh session returns the record of the second write.
\<close>

theorem overwrite_on_full:
  "(ring_inv s \<and> line_count s = MAX_STRINGS \<longrightarrow>
      tail (add_to_buffer input s) = (tail s + 1) mod MAX_STRINGS \<and>
      line_count (add_to_buffer input s) = MAX_STRINGS \<and>
      pending (add_to_buffer input s) = tl (pending s) @ [kept input]) \<and>
   (ring_inv e \<and> line_count e = 0 \<and>
    length ws = nat MAX_STRINGS + 1 \<and> (\<forall>(u, c) \<in> set ws. write_len c \<le> length u) \<and>
    STR_SIZE - 1 \<le> room \<longrightarrow>
      ret (proc_read room count 0 (writes ws e))
        = Inr (int (length (written_record (fst (ws ! 1)) (snd (ws ! 1))))) \<and>
      usr_bytes (proc_read room count 0 (writes ws e))
        = written_record (fst (ws ! 1)) (snd (ws ! 1)))"
proof (intro conjI impI)
  assume a: "ring_inv s \<and> line_count s = MAX_STRINGS"
  then show "tail (add_to_buffer input s) = (tail s + 1) mod MAX_STRINGS"
    and "line_count (add_to_buffer input s) = MAX_STRINGS"
    by (simp_all add: add_to_buffer_fields)
  from a show "pending (add_to_buffer input s) = tl (pending s) @ [kept input]"
    by (simp add: pending_add_full)
next
  assume a: "ring_inv e \<and> line_count e = 0 \<and>
    length ws = nat MAX_STRINGS + 1 \<and> (\<forall>(u, c) \<in> set ws. write_len c \<le> length u) \<and>
    STR_SIZE - 1 \<le> room"
  let ?s = "writes ws e"
  let ?R = "map (\<lambda>(u, c). written_record u c) ws"
  have inv: "ring_inv ?s"
    using a by (intro writes_empty) simp_all
  have p: "pending ?s = drop 1 ?R"
    using a writes_empty(2) [of e ws] by simp
  have one: "1 < length ws"
    using a MAX_STRINGS_pos by simp
  then have h: "hd (pending ?s) = written_record (fst (ws ! 1)) (snd (ws ! 1))"
    unfolding p by (simp add: hd_drop_conv_nth case_prod_unfold)
  have "nat (line_count ?s) = length ws - 1"
    using length_pending [of ?s] by (simp add: p)
  then have pos: "0 < line_count ?s"
    using one by linarith
  have t: "0 \<le> tail ?s" "tail ?s < MAX_STRINGS"
    using inv by (simp_all add: ring_inv_def)
  let ?row = "circular_buffer ?s ! nat (tail ?s)"
  have "row_ok ?row"
    using inv t by (rule ring_inv_row)
  then have fits: "\<not> room < strlen ?row"
    using strlen_row_ok [of ?row] a by simp
  have r: "proc_read room count 0 ?s
      = \<lparr>ret = Inr (int (strlen ?row)), usr_bytes = c_string ?row,
         new_pos = int (strlen ?row), new_ring = drop_oldest ?s\<rparr>"
    using fits by (simp add: proc_read_oldest [OF t(1) _ pos] Let_def)
  have c: "c_string ?row = written_record (fst (ws ! 1)) (snd (ws ! 1))"
    using h by (simp add: hd_pending [OF pos t])
  show "ret (proc_read room count 0 ?s)
        = Inr (int (length (written_record (fst (ws ! 1)) (snd (ws ! 1)))))"
    using c length_c_string [of ?row] by (simp add: r)
  show "usr_bytes (proc_read room count 0 ?s) = written_record (fst (ws ! 1)) (snd (ws ! 1))"
    using c by (simp add: r)
qed

theorem overwrite_on_full_witness:
  "ring_inv (init_ring\<lparr>line_count := MAX_STRINGS\<rparr>) \<and>
   tail (add_to_buffer [0x7a] (init_ring\<lparr>line_count := MAX_STRINGS\<rparr>)) = 1 \<and>
   line_count (add_to_buffer [0x7a] (init_ring\<lparr>line_count := MAX_STRINGS\<rparr>)) = 10 \<and>
   length
     [([0x61], 1), ([0x62], 1), ([0x63], 1), ([0x64], 1), ([0x65], 1), ([0x66], 1),
      ([0x67], 1), ([0x68], 1), ([0x69], 1), ([0x6a], 1), ([0x6b], 1)] = 11 \<and>
   ret (proc_read 63 1 0 (writes
     [([0x61], 1), ([0x62], 1), ([0x63], 1), ([0x64], 1), ([0x65], 1), ([0x66], 1),
      ([0x67], 1), ([0x68], 1), ([0x69], 1), ([0x6a], 1), ([0x6b], 1)]
     init_ring)) = Inr 1 \<and>
   usr_bytes (proc_read 63 1 0 (writes
     [([0x61], 1), ([0x62], 1), ([0x63], 1), ([0x64], 1), ([0x65], 1), ([0x66], 1),
      ([0x67], 1), ([0x68], 1), ([0x69], 1), ([0x6a], 1), ([0x6b], 1)]
     init_ring)) = [0x62]"
proof -
  have "ring_inv (init_ring\<lparr>line_count := MAX_STRINGS\<rparr>)"
    by (rule full_ring_inv)
  moreover have "tail (init_ring\<lparr>line_count := MAX_STRINGS\<rparr>) = 0"
    by (simp add: init_ring_def)
  moreover have "written_record [0x62] 1 = [0x62]"
    by (simp add: written_record_def write_len_eq c_string_def STR_SIZE_def)
  moreover have "line_count init_ring = 0"
    by (simp add: init_ring_def)
  ultimately show ?thesis
    using init_ring_inv
      overwrite_on_full [of "init_ring\<lparr>line_count := MAX_STRINGS\<rparr>" "[0x7a]" init_ring
        "[([0x61], 1), ([0x62], 1), ([0x63], 1), ([0x64], 1), ([0x65], 1), ([0x66], 1),
          ([0x67], 1), ([0x68], 1), ([0x69], 1), ([0x6a], 1), ([0x6b], 1)]"
        63 1]
    by (simp add: MAX_STRINGS_def STR_SIZE_def write_len_eq del: writes.simps)
qed

text \<open>
  C3, as the code has it. In a state that satisfies the invariant, a write whose copy
  from the caller succeeds takes \<open>len = min count (STR_SIZE - 1)\<close> bytes and returns
  without error however large \<open>count\<close> is. When none of these \<open>len\<close> bytes is NUL, the
  row at the old \<open>head\<close> holds exactly these bytes followed by a NUL at index \<open>len\<close>,
  its string length is \<open>len\<close>, and the youngest unread record is these \<open>len\<close> bytes.
  A NUL-free input of 100 bytes is therefore stored and consumed with length 63.
\<close>

theorem truncation_of_text:
  assumes "ring_inv s"
    and "write_len count \<le> length usr_buf"
    and "0 \<notin> set (take (write_len count) usr_buf)"
  shows "write_len count = min (unat count) (STR_SIZE - 1) \<and>
         fst (proc_write usr_buf count s) = Inr (sint count) \<and>
         take (write_len count) (circular_buffer (snd (proc_write usr_buf count s)) ! nat (head s))
           = take (write_len count) usr_buf \<and>
         circular_buffer (snd (proc_write usr_buf count s)) ! nat (head s) ! write_len count = 0 \<and>
         strlen (circular_buffer (snd (proc_write usr_buf count s)) ! nat (head s))
           = write_len count \<and>
         last (pending (snd (proc_write usr_buf count s))) = take (write_len count) usr_buf"
proof -
  let ?n = "write_len count"
  let ?row = "circular_buffer (snd (proc_write usr_buf count s)) ! nat (head s)"
  have n: "?n \<le> STR_SIZE - 1"
    by (simp add: write_len_eq)
  have "c_string (take ?n usr_buf) = take ?n usr_buf"
    unfolding c_string_def using assms(3) by (intro takeWhile_eq_all_conv [THEN iffD2]) auto
  then have w: "written_record usr_buf count = take ?n usr_buf"
    by (simp add: written_record_def)
  have lw: "length (take ?n usr_buf) = ?n"
    using assms(2) by simp
  obtain m where m: "STR_SIZE - ?n = Suc m"
    using n STR_SIZE_pos by (cases "STR_SIZE - ?n") auto
  have row: "?row = take ?n usr_buf @ replicate (Suc m) 0"
    using written_row [OF assms(1,2)] by (simp only: w lw m)
  have "take ?n ?row = take ?n usr_buf"
    unfolding row using lw by simp
  moreover have "?row ! ?n = 0"
    unfolding row using lw by (simp add: nth_append)
  moreover have "c_string ?row = take ?n usr_buf"
    unfolding row using assms(3) by (intro c_string_padded) auto
  then have "strlen ?row = ?n"
    using length_c_string [of ?row] lw by simp
  moreover have "last (pending (snd (proc_write usr_buf count s))) = take ?n usr_buf"
  proof -
    have "length (pending s) + 1 - nat MAX_STRINGS < length (pending s @ [take ?n usr_buf])"
      using length_pending_le [OF assms(1)] MAX_STRINGS_pos by simp
    then show ?thesis
      unfolding pending_written [OF assms(1,2)] w by (simp only: last_drop last_snoc)
  qed
  ultimately show ?thesis
    by (simp add: write_len_eq proc_write_ok [OF assms(2)])
qed

theorem truncation_of_text_witness:
  "write_len 100 = 63 \<and>
   length (replicate 100 (0x41 :: byte)) = 100 \<and>
   fst (proc_write (replicate 100 0x41) 100 init_ring) = Inr 100 \<and>
   take 63 (circular_buffer (snd (proc_write (replicate 100 0x41) 100 init_ring)) ! 0)
     = replicate 63 0x41 \<and>
   circular_buffer (snd (proc_write (replicate 100 0x41) 100 init_ring)) ! 0 ! 63 = 0 \<and>
   strlen (circular_buffer (snd (proc_write (replicate 100 0x41) 100 init_ring)) ! 0) = 63 \<and>
   ret (proc_read 63 100 0 (snd (proc_write (replicate 100 0x41) 100 init_ring))) = Inr 63 \<and>
   usr_bytes (proc_read 63 100 0 (snd (proc_write (replicate 100 0x41) 100 init_ring)))
     = replicate 63 0x41"
proof -
  let ?u = "replicate 100 (0x41 :: byte)"
  let ?s = "snd (proc_write ?u 100 init_ring)"
  have n: "write_len 100 = 63"
    by (simp add: write_len_eq STR_SIZE_def)
  have ok: "write_len 100 \<le> length ?u"
    by (simp add: n)
  have nonul: "0 \<notin> set (take (write_len 100) ?u)"
    by (simp add: n)
  have h: "nat (head init_ring) = 0"
    by (simp add: init_ring_def)
  have row: "fst (proc_write ?u 100 init_ring) = Inr 100 \<and>
      take 63 (circular_buffer ?s ! 0) = replicate 63 0x41 \<and>
      circular_buffer ?s ! 0 ! 63 = 0 \<and>
      strlen (circular_buffer ?s ! 0) = 63"
    using truncation_of_text [OF init_ring_inv ok nonul, unfolded h n] by simp
  have p: "pending ?s = [replicate 63 0x41]"
    using MAX_STRINGS_pos
    by (simp add: pending_written [OF init_ring_inv ok] pending_init written_record_def
        c_string_def n)
  have "ring_inv ?s"
    using init_ring_inv by (rule proc_write_inv)
  moreover from this have "0 < line_count ?s"
    by (simp add: line_count_pending p)
  ultimately have "proc_read 63 100 0 ?s
       = \<lparr>ret = Inr (int (length (hd (pending ?s)))), usr_bytes = hd (pending ?s),
          new_pos = int (length (hd (pending ?s))), new_ring = drop_oldest ?s\<rparr>"
    by (rule proc_read_fresh) (simp add: STR_SIZE_def)
  then show ?thesis
    using row n by (simp add: p)
qed

text \<open>
  C3, as the claim has it, fails on an input with a NUL among its first \<open>len\<close> bytes:
  of the 100 bytes \<open>a, NUL, b, b, ...\<close> written with count 100, for which \<open>len\<close> is 63,
  the row does not hold the first 63, and the record is consumed with length 1.
\<close>

theorem truncation_counterexample:
  "length (0x61 # 0 # replicate 98 (0x62 :: byte)) = 100 \<and>
   write_len 100 = 63 \<and>
   take 63 (circular_buffer (snd (proc_write (0x61 # 0 # replicate 98 0x62) 100 init_ring)) ! 0)
     \<noteq> take 63 (0x61 # 0 # replicate 98 0x62) \<and>
   ret (proc_read 63 100 0 (snd (proc_write (0x61 # 0 # replicate 98 0x62) 100 init_ring)))
     = Inr 1"
proof -
  let ?u = "0x61 # 0 # replicate 98 (0x62 :: byte)"
  let ?s = "snd (proc_write ?u 100 init_ring)"
  have n: "write_len 100 = 63"
    by (simp add: write_len_eq STR_SIZE_def)
  have ok: "write_len 100 \<le> length ?u"
    by (simp add: n)
  have w: "written_record ?u 100 = [0x61]"
    by (simp add: written_record_def c_string_def n)
  have h: "nat (head init_ring) = 0"
    by (simp add: init_ring_def)
  have row: "circular_buffer ?s ! 0 = 0x61 # replicate 63 0"
    using written_row [OF init_ring_inv ok] by (simp add: h w STR_SIZE_def)
  have "take 63 (circular_buffer ?s ! 0) ! 2 \<noteq> take 63 ?u ! 2"
    by (simp add: row)
  then have differ: "take 63 (circular_buffer ?s ! 0) \<noteq> take 63 ?u"
    by metis
  have p: "pending ?s = [[0x61]]"
    using MAX_STRINGS_pos
    by (simp add: pending_written [OF init_ring_inv ok] pending_init w)
  have "ring_inv ?s"
    using init_ring_inv by (rule proc_write_inv)
  moreover from this have "0 < line_count ?s"
    by (simp add: line_count_pending p)
  ultimately have "proc_read 63 100 0 ?s
       = \<lparr>ret = Inr (int (length (hd (pending ?s)))), usr_bytes = hd (pending ?s),
          new_pos = int (length (hd (pending ?s))), new_ring = drop_oldest ?s\<rparr>"
    by (rule proc_read_fresh) (simp add: STR_SIZE_def)
  then show ?thesis
    using differ by (simp add: p n)
qed

text \<open>
  C4, at a failing input. One record (\<open>hi\<close>) is written on the initial ring and read
  in a fresh session into a buffer that is not writable. The read returns \<open>-EFAULT\<close>,
  yet \<open>tail\<close> has advanced and \<open>line_count\<close> has dropped to 0: the state is not the
  state before the call, and the next read finds the ring empty. A write that faults
  leaves the state as it was (\<open>proc_write_fault\<close>).
\<close>

theorem read_fault_drops_record:
  "line_count (snd (proc_write [0x68, 0x69] 2 init_ring)) = 1 \<and>
   tail (snd (proc_write [0x68, 0x69] 2 init_ring)) = 0 \<and>
   ret (proc_read 0 2 0 (snd (proc_write [0x68, 0x69] 2 init_ring))) = Inl EFAULT \<and>
   line_count (new_ring (proc_read 0 2 0 (snd (proc_write [0x68, 0x69] 2 init_ring)))) = 0 \<and>
   tail (new_ring (proc_read 0 2 0 (snd (proc_write [0x68, 0x69] 2 init_ring)))) = 1 \<and>
   new_ring (proc_read 0 2 0 (snd (proc_write [0x68, 0x69] 2 init_ring)))
     \<noteq> snd (proc_write [0x68, 0x69] 2 init_ring) \<and>
   ret (proc_read 63 2 0
          (new_ring (proc_read 0 2 0 (snd (proc_write [0x68, 0x69] 2 init_ring))))) = Inr 0"
proof -
  let ?s = "snd (proc_write [0x68, 0x69] 2 init_ring)"
  have n: "write_len 2 = 2"
    by (simp add: write_len_eq STR_SIZE_def)
  have ok: "write_len 2 \<le> length [0x68, 0x69 :: byte]"
    by (simp add: n)
  have p: "pending ?s = [[0x68, 0x69]]"
    using MAX_STRINGS_pos
    by (simp add: pending_written [OF init_ring_inv ok] pending_init written_record_def
        c_string_def n)
  have inv: "ring_inv ?s"
    using init_ring_inv by (rule proc_write_inv)
  then have lc: "line_count ?s = 1"
    by (simp add: line_count_pending p)
  have t: "tail ?s = 0"
    by (simp add: proc_write_ok [OF ok] add_to_buffer_fields [OF init_ring_inv])
      (simp add: init_ring_def MAX_STRINGS_def)
  have r: "proc_read 0 2 0 ?s
       = \<lparr>ret = Inl EFAULT, usr_bytes = take 0 (hd (pending ?s)), new_pos = 0,
          new_ring = drop_oldest ?s\<rparr>"
    using inv by (rule proc_read_fault) (simp_all add: lc p)
  have d: "line_count (drop_oldest ?s) = 0" "tail (drop_oldest ?s) = 1"
    using MAX_STRINGS_pos by (simp_all add: drop_oldest_def lc t MAX_STRINGS_def)
  then have "drop_oldest ?s \<noteq> ?s"
    using lc by auto
  moreover have "ret (proc_read 63 2 0 (drop_oldest ?s)) = Inr 0"
    using d(1) by (simp add: proc_read_empty)
  ultimately show ?thesis
    using lc t d by (simp add: r)
qed

text \<open>
  C5. A read on an empty ring (\<open>line_count = 0\<close>) returns 0, the end-of-file value and
  not an error, stores nothing at the caller's pointer, and leaves the position, \<open>head\<close>,
  \<open>tail\<close>, \<open>line_count\<close> and every row as they were. The same holds for every read of
  any sequence of reads that follows, whatever their room, count and position.
\<close>

theorem empty_read_is_noop:
  assumes "line_count s = 0"
  shows "reads rs s
       = map (\<lambda>(room, count, pos). \<lparr>ret = Inr 0, usr_bytes = [], new_pos = pos, new_ring = s\<rparr>) rs"
proof (induction rs)
  case Nil
  show ?case by simp
next
  case (Cons r rs)
  obtain room count pos where r: "r = (room, count, pos)"
    by (cases r)
  have "proc_read room count pos s
      = \<lparr>ret = Inr 0, usr_bytes = [], new_pos = pos, new_ring = s\<rparr>"
    using assms by (simp add: proc_read_empty)
  with Cons.IH show ?case
    by (simp add: r)
qed

theorem empty_read_is_noop_witness:
  "line_count init_ring = 0 \<and>
   reads [(64, 64, 0), (0, 1, 0), (64, 64, 5)] init_ring
     = [\<lparr>ret = Inr 0, usr_bytes = [], new_pos = 0, new_ring = init_ring\<rparr>,
        \<lparr>ret = Inr 0, usr_bytes = [], new_pos = 0, new_ring = init_ring\<rparr>,
        \<lparr>ret = Inr 0, usr_bytes = [], new_pos = 5, new_ring = init_ring\<rparr>]"
proof -
  have e: "line_count init_ring = 0"
    by (simp add: init_ring_def)
  show ?thesis
    using e empty_read_is_noop [OF e, of "[(64, 64, 0), (0, 1, 0), (64, 64, 5)]"]
    by simp
qed

text \<open>
  C6, as the code has it. The position marker of a session is a file offset: it starts
  at 0 and \<open>proc_read\<close> only ever adds the length it returns to it
  (\<open>pos_stays_nonneg\<close>), so it is never negative. A read whose marker is nonzero
  returns 0, stores nothing and leaves the marker and the ring as they were, whatever
  \<open>line_count\<close> is, and so does every later read of the session. A read whose marker
  is 0, on a valid ring with \<open>line_count > 0\<close> and with room for the record, returns the
  oldest unread record with its length, adds that length to the marker and drops the
  record from the ring. So when the record consumed is not empty, every further read of
  the same session returns 0 and leaves the ring alone, and a session that starts at
  marker 0 on the ring so left consumes the next record.
\<close>

theorem session_read_once:
  assumes "0 \<le> pos"
  shows "(pos \<noteq> 0 \<longrightarrow>
            proc_read room count pos s
              = \<lparr>ret = Inr 0, usr_bytes = [], new_pos = pos, new_ring = s\<rparr> \<and>
            session rs pos s
              = map (\<lambda>(room', count').
                       \<lparr>ret = Inr 0, usr_bytes = [], new_pos = pos, new_ring = s\<rparr>) rs) \<and>
         (pos = 0 \<and> ring_inv s \<and> 0 < line_count s \<and> length (hd (pending s)) \<le> room \<longrightarrow>
            proc_read room count pos s
              = \<lparr>ret = Inr (int (length (hd (pending s)))), usr_bytes = hd (pending s),
                 new_pos = int (length (hd (pending s))), new_ring = drop_oldest s\<rparr> \<and>
            pending (drop_oldest s) = tl (pending s) \<and>
            (hd (pending s) \<noteq> [] \<longrightarrow>
               session ((room, count) # rs) pos s
                 = \<lparr>ret = Inr (int (length (hd (pending s)))), usr_bytes = hd (pending s),
                    new_pos = int (length (hd (pending s))), new_ring = drop_oldest s\<rparr>
                   # map (\<lambda>(room', count').
                            \<lparr>ret = Inr 0, usr_bytes = [],
                             new_pos = int (length (hd (pending s))),
                             new_ring = drop_oldest s\<rparr>) rs))"
proof (intro conjI impI)
  assume "pos \<noteq> 0"
  with assms have p: "0 < pos" by simp
  then show "proc_read room count pos s
      = \<lparr>ret = Inr 0, usr_bytes = [], new_pos = pos, new_ring = s\<rparr>"
    by (rule proc_read_suppressed)
  from p show "session rs pos s
      = map (\<lambda>(room', count').
               \<lparr>ret = Inr 0, usr_bytes = [], new_pos = pos, new_ring = s\<rparr>) rs"
    by (rule session_suppressed)
next
  assume a: "pos = 0 \<and> ring_inv s \<and> 0 < line_count s \<and> length (hd (pending s)) \<le> room"
  let ?row = "circular_buffer s ! nat (tail s)"
  have t: "0 \<le> tail s"
    using a by (simp add: ring_inv_def)
  have c: "c_string ?row = hd (pending s)"
    using a by (intro c_string_oldest) simp_all
  then have "\<not> room < strlen ?row"
    using a length_c_string [of ?row] by simp
  then show r: "proc_read room count pos s
      = \<lparr>ret = Inr (int (length (hd (pending s)))), usr_bytes = hd (pending s),
         new_pos = int (length (hd (pending s))), new_ring = drop_oldest s\<rparr>"
    using a c length_c_string [of ?row] by (simp add: proc_read_oldest [OF t] Let_def)
  show "pending (drop_oldest s) = tl (pending s)"
    using a by (intro pending_drop_oldest) simp
  assume "hd (pending s) \<noteq> []"
  then have "0 < int (length (hd (pending s)))"
    by simp
  then have "session rs (int (length (hd (pending s)))) (drop_oldest s)
      = map (\<lambda>(room', count').
               \<lparr>ret = Inr 0, usr_bytes = [], new_pos = int (length (hd (pending s))),
                new_ring = drop_oldest s\<rparr>) rs"
    by (rule session_suppressed)
  then show "session ((room, count) # rs) pos s
      = \<lparr>ret = Inr (int (length (hd (pending s)))), usr_bytes = hd (pending s),
         new_pos = int (length (hd (pending s))), new_ring = drop_oldest s\<rparr>
        # map (\<lambda>(room', count').
                 \<lparr>ret = Inr 0, usr_bytes = [], new_pos = int (length (hd (pending s))),
                  new_ring = drop_oldest s\<rparr>) rs"
    by (simp add: r Let_def)
qed

theorem session_read_once_witness:
  "line_count (writes [([0x61, 0x62], 2), ([0x63], 1)] init_ring) = 2 \<and>
   session [(63, 4096), (63, 4096), (63, 1)] 0
       (writes [([0x61, 0x62], 2), ([0x63], 1)] init_ring)
     = [\<lparr>ret = Inr 2, usr_bytes = [0x61, 0x62], new_pos = 2,
         new_ring = drop_oldest (writes [([0x61, 0x62], 2), ([0x63], 1)] init_ring)\<rparr>,
        \<lparr>ret = Inr 0, usr_bytes = [], new_pos = 2,
         new_ring = drop_oldest (writes [([0x61, 0x62], 2), ([0x63], 1)] init_ring)\<rparr>,
        \<lparr>ret = Inr 0, usr_bytes = [], new_pos = 2,
         new_ring = drop_oldest (writes [([0x61, 0x62], 2), ([0x63], 1)] init_ring)\<rparr>] \<and>
   line_count (drop_oldest (writes [([0x61, 0x62], 2), ([0x63], 1)] init_ring)) = 1 \<and>
   proc_read 63 4096 2 (drop_oldest (writes [([0x61, 0x62], 2), ([0x63], 1)] init_ring))
     = \<lparr>ret = Inr 0, usr_bytes = [], new_pos = 2,
        new_ring = drop_oldest (writes [([0x61, 0x62], 2), ([0x63], 1)] init_ring)\<rparr> \<and>
   ret (proc_read 63 4096 0 (drop_oldest (writes [([0x61, 0x62], 2), ([0x63], 1)] init_ring)))
     = Inr 1 \<and>
   usr_bytes (proc_read 63 4096 0 (drop_oldest (writes [([0x61, 0x62], 2), ([0x63], 1)] init_ring)))
     = [0x63]"
proof -
  let ?ws = "[([0x61, 0x62], 2), ([0x63], 1)] :: (byte list \<times> size_t) list"
  define s where "s = writes ?ws init_ring"
  have ok: "\<forall>(u, c) \<in> set ?ws. write_len c \<le> length u"
    by (simp add: write_len_eq STR_SIZE_def)
  have inv: "ring_inv s"
    unfolding s_def using ok by (rule writes_init)
  have p: "pending s = [[0x61, 0x62], [0x63]]"
    unfolding s_def writes_init(2) [OF ok]
    by (simp add: written_record_def write_len_eq c_string_def MAX_STRINGS_def STR_SIZE_def)
  have lc: "line_count s = 2"
    using inv by (simp add: line_count_pending p)
  have inv': "ring_inv (drop_oldest s)"
    using inv by (rule drop_oldest_inv) (simp add: lc)
  have p': "pending (drop_oldest s) = [[0x63]]"
    by (simp add: pending_drop_oldest lc p)
  have lc': "line_count (drop_oldest s) = 1"
    using inv' by (simp add: line_count_pending p')
  show ?thesis
    unfolding s_def [symmetric]
    using session_read_once [of 0 63 4096 s "[(63, 4096), (63, 1)]"]
      session_read_once [of 2 63 4096 "drop_oldest s" "[]"]
      session_read_once [of 0 63 4096 "drop_oldest s" "[]"]
    by (simp add: inv inv' p p' lc lc' del: session.simps)
qed

text \<open>
  C6, as the claim has it, ties the nonzero marker to a consume that has happened in
  the session. That fails when the record consumed is empty: the read returns 0, drops
  the record and leaves the marker at 0. Here an empty record (a write with count 0)
  and the record \<open>c\<close> are written on the initial ring. The first read of a session
  consumes the empty record (\<open>line_count\<close> goes from 2 to 1) and leaves the marker at
  0; the second read of the same session is not suppressed: it consumes and returns
  \<open>c\<close>.
\<close>

theorem session_read_once_counterexample:
  "line_count (writes [([], 0), ([0x63], 1)] init_ring) = 2 \<and>
   map (\<lambda>r. (ret r, usr_bytes r, new_pos r, line_count (new_ring r)))
     (session [(63, 4096), (63, 4096)] 0 (writes [([], 0), ([0x63], 1)] init_ring))
   = [(Inr 0, [], 0, 1), (Inr 1, [0x63], 1, 0)]"
proof -
  let ?ws = "[([], 0), ([0x63], 1)] :: (byte list \<times> size_t) list"
  define s where "s = writes ?ws init_ring"
  have ok: "\<forall>(u, c) \<in> set ?ws. write_len c \<le> length u"
    by (simp add: write_len_eq STR_SIZE_def)
  have inv: "ring_inv s"
    unfolding s_def using ok by (rule writes_init)
  have p: "pending s = [[], [0x63]]"
    unfolding s_def writes_init(2) [OF ok]
    by (simp add: written_record_def write_len_eq c_string_def MAX_STRINGS_def STR_SIZE_def)
  have lc: "line_count s = 2"
    using inv by (simp add: line_count_pending p)
  have inv': "ring_inv (drop_oldest s)"
    using inv by (rule drop_oldest_inv) (simp add: lc)
  have p': "pending (drop_oldest s) = [[0x63]]"
    by (simp add: pending_drop_oldest lc p)
  have lc': "line_count (drop_oldest s) = 1"
    using inv' by (simp add: line_count_pending p')
  have lc'': "line_count (drop_oldest (drop_oldest s)) = 0"
    by (simp add: drop_oldest_def [of "drop_oldest s"] lc')
  have r1: "proc_read 63 4096 0 s
      = \<lparr>ret = Inr 0, usr_bytes = [], new_pos = 0, new_ring = drop_oldest s\<rparr>"
    using proc_read_fresh [of s 63 4096] inv by (simp add: lc p STR_SIZE_def)
  have r2: "proc_read 63 4096 0 (drop_oldest s)
      = \<lparr>ret = Inr 1, usr_bytes = [0x63], new_pos = 1,
         new_ring = drop_oldest (drop_oldest s)\<rparr>"
    using proc_read_fresh [of "drop_oldest s" 63 4096] inv'
    by (simp add: lc' p' STR_SIZE_def)
  show ?thesis
    unfolding s_def [symmetric] by (simp add: lc r1 r2 lc' lc'')
qed

text \<open>
  C7. A write whose copy from the caller succeeds returns the requested \<open>count\<close>
  itself, not the number of bytes kept, for every \<open>count\<close> that the return type
  \<open>ssize_t\<close> can hold; so the value returned is the same whether or not the input was
  cut at \<open>STR_SIZE - 1\<close> bytes, and a large \<open>count\<close> is never an error.
\<close>

theorem write_returns_count:
  assumes "write_len count \<le> length usr_buf"
    and "unat count < 2 ^ 63"
  shows "fst (proc_write usr_buf count s) = Inr (int (unat count))"
  using assms by (simp add: proc_write_ok sint_fits)

theorem write_returns_count_witness:
  "write_len 100 = 63 \<and>
   fst (proc_write (replicate 100 0x41) 100 init_ring) = Inr 100 \<and>
   fst (proc_write (replicate 63 0x41) 100 init_ring) = Inr 100"
proof -
  have n: "write_len 100 = 63"
    by (simp add: write_len_eq STR_SIZE_def)
  have "unat (100 :: size_t) < 2 ^ 63"
    by simp
  then show ?thesis
    using n write_returns_count [of 100 "replicate 100 0x41" init_ring]
      write_returns_count [of 100 "replicate 63 0x41" init_ring]
    by simp
qed

text \<open>
  C8. In every state reached from the initial one by any sequence of writes and reads
  (with any arguments, faulting or not), \<open>head\<close> and \<open>tail\<close> lie in \<open>[0, MAX_STRINGS)\<close>
  and \<open>line_count\<close> in \<open>[0, MAX_STRINGS]\<close>; there \<open>add_to_buffer\<close> advances \<open>head\<close>
  to \<open>(head + 1) mod MAX_STRINGS\<close>, and a read that consumes advances \<open>tail\<close> to
  \<open>(tail + 1) mod MAX_STRINGS\<close>.
\<close>

theorem indices_in_range:
  "0 \<le> head (run calls init_ring) \<and> head (run calls init_ring) < MAX_STRINGS \<and>
   0 \<le> tail (run calls init_ring) \<and> tail (run calls init_ring) < MAX_STRINGS \<and>
   0 \<le> line_count (run calls init_ring) \<and> line_count (run calls init_ring) \<le> MAX_STRINGS \<and>
   head (add_to_buffer input (run calls init_ring))
     = (head (run calls init_ring) + 1) mod MAX_STRINGS \<and>
   tail (new_ring (proc_read room count 0 (run calls init_ring)))
     = (if 0 < line_count (run calls init_ring)
        then (tail (run calls init_ring) + 1) mod MAX_STRINGS
        else tail (run calls init_ring))"
proof -
  have inv: "ring_inv (run calls init_ring)"
    using init_ring_inv by (rule run_inv)
  then have t: "0 \<le> tail (run calls init_ring)"
    by (simp add: ring_inv_def)
  have "tail (new_ring (proc_read room count 0 (run calls init_ring)))
     = (if 0 < line_count (run calls init_ring)
        then (tail (run calls init_ring) + 1) mod MAX_STRINGS
        else tail (run calls init_ring))"
    using t by (simp add: proc_read_oldest proc_read_empty Let_def drop_oldest_def)
  then show ?thesis
    using inv add_to_buffer_fields(2) [OF inv, of input] by (simp add: ring_inv_def)
qed

text \<open>
  C9. In every state reached from the initial one by any sequence of writes and reads,
  \<open>head = (tail + line_count) mod MAX_STRINGS\<close>.
\<close>

theorem head_is_tail_plus_count:
  "head (run calls init_ring)
     = (tail (run calls init_ring) + line_count (run calls init_ring)) mod MAX_STRINGS"
proof -
  have "ring_inv (run calls init_ring)"
    using init_ring_inv by (rule run_inv)
  then show ?thesis
    by (simp add: ring_inv_def)
qed

text \<open>
  C10. \<open>proc_read\<close> never looks at the requested \<open>count\<close>: on a valid ring with
  \<open>line_count > 0\<close>, in a fresh session and with the record's bytes writable at the
  caller's pointer, it stores and returns all \<open>strlen\<close> bytes of the oldest row for
  every \<open>count\<close>, also one smaller than that length, and its whole result is the same
  for any two counts.
\<close>

theorem read_ignores_count:
  assumes "ring_inv s"
    and "0 < line_count s"
    and "strlen (circular_buffer s ! nat (tail s)) \<le> room"
  shows "ret (proc_read room count 0 s) = Inr (int (strlen (circular_buffer s ! nat (tail s)))) \<and>
         usr_bytes (proc_read room count 0 s)
           = take (strlen (circular_buffer s ! nat (tail s))) (circular_buffer s ! nat (tail s)) \<and>
         proc_read room count 0 s = proc_read room count' 0 s"
proof -
  have t: "0 \<le> tail s"
    using assms(1) by (simp add: ring_inv_def)
  have "\<not> room < strlen (circular_buffer s ! nat (tail s))"
    using assms(3) by simp
  then show ?thesis
    by (simp add: proc_read_oldest [OF t _ assms(2)] Let_def take_strlen)
qed

theorem read_ignores_count_witness:
  "unat (1 :: size_t) < 5 \<and>
   ret (proc_read 63 1 0 (writes [([0x68, 0x65, 0x6c, 0x6c, 0x6f], 5)] init_ring)) = Inr 5 \<and>
   usr_bytes (proc_read 63 1 0 (writes [([0x68, 0x65, 0x6c, 0x6c, 0x6f], 5)] init_ring))
     = [0x68, 0x65, 0x6c, 0x6c, 0x6f]"
proof -
  let ?ws = "[([0x68, 0x65, 0x6c, 0x6c, 0x6f], 5)] :: (byte list \<times> size_t) list"
  define s where "s = writes ?ws init_ring"
  let ?row = "circular_buffer s ! nat (tail s)"
  have ok: "\<forall>(u, c) \<in> set ?ws. write_len c \<le> length u"
    by (simp add: write_len_eq STR_SIZE_def)
  have inv: "ring_inv s"
    unfolding s_def using ok by (rule writes_init)
  have p: "pending s = [[0x68, 0x65, 0x6c, 0x6c, 0x6f]]"
    unfolding s_def writes_init(2) [OF ok]
    by (simp add: written_record_def write_len_eq c_string_def MAX_STRINGS_def STR_SIZE_def)
  have lc: "0 < line_count s"
    using inv by (simp add: line_count_pending p)
  have c: "c_string ?row = [0x68, 0x65, 0x6c, 0x6c, 0x6f]"
    using c_string_oldest [OF inv lc] by (simp only: p list.sel)
  then have l: "strlen ?row = 5"
    using length_c_string [of ?row] by simp
  then have fits: "strlen ?row \<le> 63"
    by simp
  have "take 5 ?row = [0x68, 0x65, 0x6c, 0x6c, 0x6f]"
    using take_strlen [of ?row] by (simp only: l c)
  then show ?thesis
    unfolding s_def [symmetric]
    using read_ignores_count [OF inv lc fits, of 1 1] by (simp add: l)
qed

end
